theory Spec2Isabelle
  imports Main "HOL-Library.AList"
begin

section \<open>Deferred indexing: the operation queue and its reducer\<close>

text \<open>
  The repository holds two versions of the indexing queue and one reducer:
  \<^item> \<^verbatim>\<open>collective/indexing/reducer.py\<close>: \<^verbatim>\<open>QueueReducer.optimize\<close>;
  \<^item> \<^verbatim>\<open>collective/indexing/queue.py\<close> with \<^verbatim>\<open>local.py\<close>: the queue kept in
    thread-local attributes, whose \<^verbatim>\<open>process\<close> dispatches the queue as it is and
    commits (definitions with the suffix \<open>_local\<close>);
  \<^item> \<^verbatim>\<open>src/collective/indexing/queue.py\<close>: the queue hooked into the transaction
    manager, whose \<^verbatim>\<open>process\<close> optimizes first and leaves the commit to a method
    of its own (definitions with the suffix \<open>_tm\<close>).
\<close>

subsection \<open>Operations, attributes, entries\<close>

text \<open>
  Modelled from the spec: \<^verbatim>\<open>collective/indexing/config.py\<close>, which defines the three
  operation codes, is not among the sources. The spec gives them as the integers
  \<open>UNINDEX < REINDEX < INDEX\<close>, conventionally \<open>-1\<close>, \<open>0\<close>, \<open>1\<close>, and the reducer's
  own comment says "Operators are -1, 0 or 1".
\<close>

definition INDEX :: int where
  "INDEX = 1"

definition REINDEX :: int where
  "REINDEX = 0"

definition UNINDEX :: int where
  "UNINDEX = - 1"

text \<open>
  Attributes are \<^verbatim>\<open>None\<close> ("all fields") or a tuple or list of names. A queue entry is
  the triple \<^verbatim>\<open>(operator, object, attributes)\<close>; the operator is a Python integer, and
  nothing stops a restored state from holding a code other than the three above. The
  objects are opaque hashable values of a type \<open>'k\<close>.
\<close>

type_synonym attrs = "string list option"

type_synonym 'k entry = "int \<times> 'k \<times> attrs"

definition entry_op :: "'k entry \<Rightarrow> int" where
  "entry_op e = fst e"

definition entry_obj :: "'k entry \<Rightarrow> 'k" where
  "entry_obj e = fst (snd e)"

definition entry_attributes :: "'k entry \<Rightarrow> attrs" where
  "entry_attributes e = snd (snd e)"

subsection \<open>Python dictionaries\<close>

text \<open>
  A dictionary is an association list with distinct keys: storing under a key that is
  present replaces the value in place, a new key goes to the end. This is the iteration
  order of the later Python versions; the Python 2 this code is written for promises no
  order at all, so the theorems below speak of the keys and entries of a result as a set,
  of their number and of their distinctness, never of their positions.
\<close>

definition dict_get :: "('a \<times> 'b) list \<Rightarrow> 'a \<Rightarrow> 'b \<Rightarrow> 'b" where
  "dict_get d k dflt = (case map_of d k of None \<Rightarrow> dflt | Some v \<Rightarrow> v)"

definition dict_fromkeys :: "'a list \<Rightarrow> ('a \<times> unit) list" where
  "dict_fromkeys ks = fold (\<lambda>k d. AList.update k () d) ks []"

definition dict_update :: "('a \<times> 'b) list \<Rightarrow> ('a \<times> 'b) list \<Rightarrow> ('a \<times> 'b) list" where
  "dict_update d other = fold (\<lambda>kv d'. AList.update (fst kv) (snd kv) d') other d"

definition dict_keys :: "('a \<times> 'b) list \<Rightarrow> 'a list" where
  "dict_keys d = map fst d"

subsection \<open>The reducer (\<^verbatim>\<open>reducer.py\<close>)\<close>

text \<open>
  Lines 24 to 31 of \<^verbatim>\<open>QueueReducer.optimize\<close>: two tuples or lists are merged through
  the keys of a temporary dictionary, anything else gives \<^verbatim>\<open>None\<close>.
\<close>

definition merge_attributes :: "attrs \<Rightarrow> attrs \<Rightarrow> attrs" where
  "merge_attributes attr iattr =
     (case attr of
        None \<Rightarrow> None
      | Some a \<Rightarrow>
          (case iattr of
             None \<Rightarrow> None
           | Some ia \<Rightarrow>
               Some (dict_keys (dict_update (dict_update [] (dict_fromkeys a)) (dict_fromkeys ia)))))"

text \<open>
  The body of the loop over the queue. \<^verbatim>\<open>del res[obj]\<close> is reached only when the
  operator read from \<open>res\<close> is \<open>INDEX\<close>, which is not the default \<open>0\<close>, so the key is
  present and the deletion cannot raise (lemma \<open>optimize_step_del_present\<close>).
\<close>

definition optimize_step :: "'k entry \<Rightarrow> ('k \<times> int \<times> attrs) list \<Rightarrow> ('k \<times> int \<times> attrs) list" where
  "optimize_step e res =
     (case e of (iop, obj, iattr) \<Rightarrow>
        (case dict_get res obj (0, iattr) of (op, attr) \<Rightarrow>
           if op = INDEX \<and> iop = UNINDEX then AList.delete obj res
           else AList.update obj (min (max (op + iop) UNINDEX) INDEX, merge_attributes attr iattr) res))"

definition optimize_res :: "'k entry list \<Rightarrow> ('k \<times> int \<times> attrs) list" where
  "optimize_res queue = fold optimize_step queue []"

definition optimize :: "'k entry list \<Rightarrow> 'k entry list" where
  "optimize queue = map (\<lambda>item. (fst (snd item), fst item, snd (snd item))) (optimize_res queue)"

subsection \<open>What the queue calls: hooks, processors, the registry\<close>

text \<open>
  The hook of a queue is a callable with no argument. Three are told apart: the default
  of the thread-local queue (\<^verbatim>\<open>lambda: 42\<close>), the \<^verbatim>\<open>register\<close> method of the
  \<^verbatim>\<open>QueueTM\<close> created by the transaction-hooked queue (the class is outside the
  sources; calling it is recorded, nothing more), and a callable handed to
  \<^verbatim>\<open>setHook\<close>, named by a number.
\<close>

datatype hook = Default_hook | QueueTM_register | Custom_hook nat

text \<open>
  The index processors are outside the repository. A processor is known by the name it
  is registered under, and each call the queue makes on one is recorded, in order, in a
  trace. No method of a processor touches the queue. The calls that \<^verbatim>\<open>process\<close> and
  \<^verbatim>\<open>commit\<close> make are taken to return normally, the statements about them being about
  the run in which they do. For \<^verbatim>\<open>abort\<close>, which is to clear the log in every run, the
  processors whose \<^verbatim>\<open>abort\<close> raises are a parameter: the queue catches nothing, so the
  exception leaves the method at once.
\<close>

datatype 'k event =
    Call_begin string
  | Call_index string 'k attrs
  | Call_reindex string 'k attrs
  | Call_unindex string 'k
  | Call_commit string
  | Call_abort string
  | Call_hook hook

text \<open>
  The first three errors are the \<^verbatim>\<open>AssertionError\<close>s with the messages
  \<^verbatim>\<open>invalid object\<close>, \<^verbatim>\<open>hook must be callable\<close> and \<^verbatim>\<open>state must be a list\<close>;
  the fourth is \<^verbatim>\<open>raise 'InvalidQueueOperation', op\<close>; the last is whatever the
  \<^verbatim>\<open>abort\<close> of the named processor raises.
\<close>

datatype error =
    Invalid_object
  | Hook_not_callable
  | State_not_list
  | Invalid_queue_operation int
  | Processor_error string

text \<open>The values \<^verbatim>\<open>setState\<close> and \<^verbatim>\<open>setHook\<close> may be handed.\<close>

datatype 'k state_value = Py_list "'k entry list" | Py_tuple "'k entry list" | Py_none

datatype hook_value = Callable hook | Not_callable

text \<open>
  The component registry, as the queue reads it: \<^verbatim>\<open>getUtilitiesFor(IIndexQueueProcessor)\<close>
  yields the processors in the order of the list, \<^verbatim>\<open>queryUtility(IQueueReducer)\<close> the
  reducer, or \<^verbatim>\<open>None\<close>.
\<close>

record 'k registry =
  utilities :: "string list"
  reducer :: "('k entry list \<Rightarrow> 'k entry list) option"

subsection \<open>Dispatching the queue (the loop shared by both \<^verbatim>\<open>process\<close> methods)\<close>

definition dispatch :: "string \<Rightarrow> 'k entry \<Rightarrow> error + 'k event" where
  "dispatch name e =
     (case e of (op, obj, attributes) \<Rightarrow>
        if op = INDEX then Inr (Call_index name obj attributes)
        else if op = REINDEX then Inr (Call_reindex name obj attributes)
        else if op = UNINDEX then Inr (Call_unindex name obj)
        else Inl (Invalid_queue_operation op))"

fun dispatch_utilities :: "string list \<Rightarrow> 'k entry \<Rightarrow> 'k event list \<Rightarrow> error option \<times> 'k event list" where
  "dispatch_utilities [] e tr = (None, tr)"
| "dispatch_utilities (name # us) e tr =
     (case dispatch name e of
        Inl err \<Rightarrow> (Some err, tr)
      | Inr ev \<Rightarrow> dispatch_utilities us e (tr @ [ev]))"

fun dispatch_queue :: "string list \<Rightarrow> 'k entry list \<Rightarrow> nat \<Rightarrow> 'k event list \<Rightarrow> (error + nat) \<times> 'k event list" where
  "dispatch_queue us [] processed tr = (Inr processed, tr)"
| "dispatch_queue us (e # es) processed tr =
     (case dispatch_utilities us e tr of
        (Some err, tr') \<Rightarrow> (Inl err, tr')
      | (None, tr') \<Rightarrow> dispatch_queue us es (processed + 1) tr')"

subsection \<open>The thread-local queue (\<^verbatim>\<open>collective/indexing/queue.py\<close>, \<^verbatim>\<open>local.py\<close>)\<close>

text \<open>
  \<^verbatim>\<open>localData\<close> has the attributes \<^verbatim>\<open>queue\<close> and \<^verbatim>\<open>hook\<close>, each absent until
  \<^verbatim>\<open>getLocal\<close> first reads it and stores what its factory returns.
\<close>

record 'k local_data =
  queue_attr :: "'k entry list option"
  hook_attr :: "hook option"

definition getLocal_queue :: "'k local_data \<Rightarrow> 'k entry list \<times> 'k local_data" where
  "getLocal_queue ld =
     (case queue_attr ld of
        None \<Rightarrow> ([], ld\<lparr>queue_attr := Some []\<rparr>)
      | Some v \<Rightarrow> (v, ld))"

definition getLocal_hook :: "'k local_data \<Rightarrow> hook \<times> 'k local_data" where
  "getLocal_hook ld =
     (case hook_attr ld of
        None \<Rightarrow> (Default_hook, ld\<lparr>hook_attr := Some Default_hook\<rparr>)
      | Some v \<Rightarrow> (v, ld))"

definition append_local :: "'k entry \<Rightarrow> 'k local_data \<Rightarrow> (error + unit) \<times> 'k event list \<times> 'k local_data" where
  "append_local e ld =
     (case getLocal_queue ld of (q, ld1) \<Rightarrow>
        (case getLocal_hook (ld1\<lparr>queue_attr := Some (q @ [e])\<rparr>) of (h, ld2) \<Rightarrow>
           (Inr (), [Call_hook h], ld2)))"

definition index_local :: "'k option \<Rightarrow> attrs \<Rightarrow> 'k local_data \<Rightarrow> (error + unit) \<times> 'k event list \<times> 'k local_data" where
  "index_local obj attributes ld =
     (case obj of
        None \<Rightarrow> (Inl Invalid_object, [], ld)
      | Some ob \<Rightarrow> append_local (INDEX, ob, attributes) ld)"

definition reindex_local :: "'k option \<Rightarrow> attrs \<Rightarrow> 'k local_data \<Rightarrow> (error + unit) \<times> 'k event list \<times> 'k local_data" where
  "reindex_local obj attributes ld =
     (case obj of
        None \<Rightarrow> (Inl Invalid_object, [], ld)
      | Some ob \<Rightarrow> append_local (REINDEX, ob, attributes) ld)"

definition unindex_local :: "'k option \<Rightarrow> 'k local_data \<Rightarrow> (error + unit) \<times> 'k event list \<times> 'k local_data" where
  "unindex_local obj ld =
     (case obj of
        None \<Rightarrow> (Inl Invalid_object, [], ld)
      | Some ob \<Rightarrow> append_local (UNINDEX, ob, None) ld)"

definition setHook_local :: "hook_value \<Rightarrow> 'k local_data \<Rightarrow> (error + unit) \<times> 'k local_data" where
  "setHook_local hook ld =
     (case hook of
        Not_callable \<Rightarrow> (Inl Hook_not_callable, ld)
      | Callable h \<Rightarrow> (Inr (), ld\<lparr>hook_attr := Some h\<rparr>))"

definition getState_local :: "'k local_data \<Rightarrow> 'k entry list \<times> 'k local_data" where
  "getState_local ld = getLocal_queue ld"

definition setState_local :: "'k state_value \<Rightarrow> 'k local_data \<Rightarrow> (error + unit) \<times> 'k local_data" where
  "setState_local state ld =
     (case state of
        Py_list es \<Rightarrow> (Inr (), ld\<lparr>queue_attr := Some es\<rparr>)
      | _ \<Rightarrow> (Inl State_not_list, ld))"

definition optimize_local :: "'k registry \<Rightarrow> 'k local_data \<Rightarrow> (error + unit) \<times> 'k local_data" where
  "optimize_local reg ld =
     (case reducer reg of
        None \<Rightarrow> (Inr (), ld)
      | Some r \<Rightarrow>
          (case getState_local ld of (q, ld1) \<Rightarrow> setState_local (Py_list (r q)) ld1))"

definition clear_local :: "'k local_data \<Rightarrow> 'k local_data" where
  "clear_local ld = (case getLocal_queue ld of (q, ld1) \<Rightarrow> ld1\<lparr>queue_attr := Some []\<rparr>)"

definition process_local :: "'k registry \<Rightarrow> 'k local_data \<Rightarrow> (error + nat) \<times> 'k event list \<times> 'k local_data" where
  "process_local reg ld =
     (let us = utilities reg;
          begun = map Call_begin us
      in case getLocal_queue ld of (q, ld1) \<Rightarrow>
           (case dispatch_queue us q 0 begun of
              (Inl err, tr) \<Rightarrow> (Inl err, tr, ld1)
            | (Inr processed, tr) \<Rightarrow>
                (Inr processed, tr @ map Call_commit us, clear_local ld1)))"

subsection \<open>The transaction-hooked queue (\<^verbatim>\<open>src/collective/indexing/queue.py\<close>)\<close>

record 'k index_queue =
  queue :: "'k entry list"
  tmhook :: "hook option"

definition hook_tm :: "'k index_queue \<Rightarrow> 'k event list \<times> 'k index_queue" where
  "hook_tm s =
     (case tmhook s of
        None \<Rightarrow> ([Call_hook QueueTM_register], s\<lparr>tmhook := Some QueueTM_register\<rparr>)
      | Some h \<Rightarrow> ([Call_hook h], s))"

definition append_tm :: "'k entry \<Rightarrow> 'k index_queue \<Rightarrow> (error + unit) \<times> 'k event list \<times> 'k index_queue" where
  "append_tm e s =
     (case hook_tm (s\<lparr>queue := queue s @ [e]\<rparr>) of (tr, s1) \<Rightarrow> (Inr (), tr, s1))"

definition index_tm :: "'k option \<Rightarrow> attrs \<Rightarrow> 'k index_queue \<Rightarrow> (error + unit) \<times> 'k event list \<times> 'k index_queue" where
  "index_tm obj attributes s =
     (case obj of
        None \<Rightarrow> (Inl Invalid_object, [], s)
      | Some ob \<Rightarrow> append_tm (INDEX, ob, attributes) s)"

definition reindex_tm :: "'k option \<Rightarrow> attrs \<Rightarrow> 'k index_queue \<Rightarrow> (error + unit) \<times> 'k event list \<times> 'k index_queue" where
  "reindex_tm obj attributes s =
     (case obj of
        None \<Rightarrow> (Inl Invalid_object, [], s)
      | Some ob \<Rightarrow> append_tm (REINDEX, ob, attributes) s)"

text \<open>
  \<^verbatim>\<open>unindex\<close> queues \<^verbatim>\<open>wrap(obj)\<close>, a proxy that freezes the object's path. What
  \<^verbatim>\<open>wrap\<close> returns depends on the acquisition machinery and on the object's class,
  both outside the sources, so it is a parameter here.
\<close>

definition unindex_tm :: "('k \<Rightarrow> 'k) \<Rightarrow> 'k option \<Rightarrow> 'k index_queue \<Rightarrow> (error + unit) \<times> 'k event list \<times> 'k index_queue" where
  "unindex_tm wrap obj s =
     (case obj of
        None \<Rightarrow> (Inl Invalid_object, [], s)
      | Some ob \<Rightarrow> append_tm (UNINDEX, wrap ob, None) s)"

definition setHook_tm :: "hook_value \<Rightarrow> 'k index_queue \<Rightarrow> (error + unit) \<times> 'k index_queue" where
  "setHook_tm hook s =
     (case hook of
        Not_callable \<Rightarrow> (Inl Hook_not_callable, s)
      | Callable h \<Rightarrow> (Inr (), s\<lparr>tmhook := Some h\<rparr>))"

definition getState_tm :: "'k index_queue \<Rightarrow> 'k entry list" where
  "getState_tm s = queue s"

definition setState_tm :: "'k state_value \<Rightarrow> 'k index_queue \<Rightarrow> (error + unit) \<times> 'k index_queue" where
  "setState_tm state s =
     (case state of
        Py_list es \<Rightarrow> (Inr (), s\<lparr>queue := es\<rparr>)
      | _ \<Rightarrow> (Inl State_not_list, s))"

definition length_tm :: "'k index_queue \<Rightarrow> nat" where
  "length_tm s = length (queue s)"

definition optimize_tm :: "'k registry \<Rightarrow> 'k index_queue \<Rightarrow> (error + unit) \<times> 'k index_queue" where
  "optimize_tm reg s =
     (case reducer reg of
        None \<Rightarrow> (Inr (), s)
      | Some r \<Rightarrow> setState_tm (Py_list (r (getState_tm s))) s)"

definition clear_tm :: "'k index_queue \<Rightarrow> 'k index_queue" where
  "clear_tm s = s\<lparr>queue := [], tmhook := None\<rparr>"

definition process_tm :: "'k registry \<Rightarrow> 'k index_queue \<Rightarrow> (error + nat) \<times> 'k event list \<times> 'k index_queue" where
  "process_tm reg s =
     (let us = utilities reg;
          begun = map Call_begin us
      in case optimize_tm reg s of
           (Inl err, s1) \<Rightarrow> (Inl err, begun, s1)
         | (Inr u, s1) \<Rightarrow>
             (case dispatch_queue us (queue s1) 0 begun of
                (Inl err, tr) \<Rightarrow> (Inl err, tr, s1)
              | (Inr processed, tr) \<Rightarrow> (Inr processed, tr, clear_tm s1)))"

definition commit_tm :: "'k registry \<Rightarrow> 'k index_queue \<Rightarrow> 'k event list \<times> 'k index_queue" where
  "commit_tm reg s = (map Call_commit (utilities reg), s)"



subsection \<open>Vocabulary of the statements\<close>

text \<open>
  The calls one pass over a queue makes when every operator is one of the three codes:
  entry by entry, and for each entry processor by processor.
\<close>

definition valid_op :: "'k entry \<Rightarrow> bool" where
  "valid_op e = (entry_op e = INDEX \<or> entry_op e = REINDEX \<or> entry_op e = UNINDEX)"

definition calls_of :: "string list \<Rightarrow> 'k entry \<Rightarrow> 'k event list" where
  "calls_of us e = concat (map (\<lambda>name. case dispatch name e of Inl err \<Rightarrow> [] | Inr ev \<Rightarrow> [ev]) us)"

definition dispatched :: "string list \<Rightarrow> 'k entry list \<Rightarrow> 'k event list" where
  "dispatched us q = concat (map (calls_of us) q)"

text \<open>The calls that apply an entry, and the call that aborts.\<close>

fun is_dispatch :: "'k event \<Rightarrow> bool" where
  "is_dispatch (Call_index name obj attributes) = True"
| "is_dispatch (Call_reindex name obj attributes) = True"
| "is_dispatch (Call_unindex name obj) = True"
| "is_dispatch ev = False"


text \<open>
  \<open>dropped K es res\<close>: while the entries \<open>es\<close> are folded into the dictionary \<open>res\<close>, the
  reducer takes its deleting branch for the object \<open>K\<close> at least once.
\<close>

fun dropped :: "'k \<Rightarrow> 'k entry list \<Rightarrow> ('k \<times> int \<times> attrs) list \<Rightarrow> bool" where
  "dropped K [] res = False"
| "dropped K (e # es) res =
     ((entry_obj e = K \<and> fst (dict_get res K (0, entry_attributes e)) = INDEX \<and> entry_op e = UNINDEX)
      \<or> dropped K es (optimize_step e res))"

text \<open>\<open>all_attributes K res\<close>: the dictionary holds \<open>K\<close> with the attributes \<^verbatim>\<open>None\<close>.\<close>

definition all_attributes :: "'k \<Rightarrow> ('k \<times> int \<times> attrs) list \<Rightarrow> bool" where
  "all_attributes K res = (\<exists>op. map_of res K = Some (op, None))"

text \<open>\<open>res_valid res\<close>: every operator the dictionary holds is one of the three codes.\<close>

definition res_valid :: "('k \<times> int \<times> attrs) list \<Rightarrow> bool" where
  "res_valid res = (\<forall>item \<in> set res. fst (snd item) \<in> {UNINDEX, REINDEX, INDEX})"

section \<open>Properties of the reducer\<close>

subsection \<open>The dictionary of results\<close>

lemma optimize_step_del_present:
  "dict_get res obj (0, iattr) = (op, attr) \<Longrightarrow> op = INDEX \<Longrightarrow> obj \<in> fst ` set res"
  by (auto simp: dict_get_def INDEX_def split: option.splits dest: map_of_SomeD intro: rev_image_eqI)

lemma optimize_step_distinct:
  "distinct (map fst res) \<Longrightarrow> distinct (map fst (optimize_step e res))"
  by (auto simp: optimize_step_def distinct_update distinct_delete split: prod.splits)

lemma fold_optimize_step_distinct:
  "distinct (map fst res) \<Longrightarrow> distinct (map fst (fold optimize_step q res))"
  by (induction q arbitrary: res) (simp_all add: optimize_step_distinct)

lemma optimize_res_distinct: "distinct (map fst (optimize_res q))"
  unfolding optimize_res_def by (rule fold_optimize_step_distinct) simp

lemma map_entry_obj_optimize: "map entry_obj (optimize q) = map fst (optimize_res q)"
  by (simp add: optimize_def entry_obj_def comp_def)

lemma optimize_res_append: "optimize_res (xs @ ys) = fold optimize_step ys (optimize_res xs)"
  by (simp add: optimize_res_def)

lemma in_optimize_iff:
  "(op, K, a) \<in> set (optimize q) \<longleftrightarrow> map_of (optimize_res q) K = Some (op, a)"
proof -
  have "(op, K, a) \<in> set (optimize q) \<longleftrightarrow> (K, op, a) \<in> set (optimize_res q)"
    by (force simp: optimize_def)
  also have "\<dots> \<longleftrightarrow> map_of (optimize_res q) K = Some (op, a)"
    using optimize_res_distinct [of q] by simp
  finally show ?thesis .
qed

lemma optimize_step_other:
  "entry_obj e \<noteq> K \<Longrightarrow> map_of (optimize_step e res) K = map_of res K"
  by (auto simp: optimize_step_def entry_obj_def update_conv' delete_conv' split: prod.splits)

lemma fold_optimize_step_other:
  "K \<notin> entry_obj ` set ys \<Longrightarrow> map_of (fold optimize_step ys res) K = map_of res K"
  by (induction ys arbitrary: res) (auto simp: optimize_step_other)

text \<open>
  C5. Whatever the queue holds (any operators, the same object any number of times), the
  reduced queue has at most one entry for each object: the objects of its entries are
  pairwise distinct.
\<close>

theorem optimize_one_entry_per_obj: "distinct (map entry_obj (optimize q))"
  by (simp add: map_entry_obj_optimize optimize_res_distinct)

subsection \<open>Cancellation\<close>

lemma optimize_step_cancel:
  "fst (dict_get res K (0, ia)) = INDEX \<Longrightarrow> optimize_step (UNINDEX, K, ia) res = AList.delete K res"
  by (auto simp: optimize_step_def split: prod.splits)

lemma entries_delete:
  "map (\<lambda>item. (fst (snd item), fst item, snd (snd item))) (AList.delete K res)
   = filter (\<lambda>e. entry_obj e \<noteq> K) (map (\<lambda>item. (fst (snd item), fst item, snd (snd item))) res)"
  by (induction res) (auto simp: entry_obj_def)

lemma optimize_step_index_fresh:
  "map_of res K = None \<Longrightarrow> \<exists>a'. map_of (optimize_step (INDEX, K, a) res) K = Some (INDEX, a')"
  by (simp add: optimize_step_def dict_get_def update_conv' INDEX_def UNINDEX_def)

lemma optimize_unindex_after_index:
  assumes "(INDEX, K, a) \<in> set (optimize q)"
  shows "optimize (q @ [(UNINDEX, K, ia)]) = filter (\<lambda>e. entry_obj e \<noteq> K) (optimize q)"
proof -
  from assms have "map_of (optimize_res q) K = Some (INDEX, a)"
    by (simp add: in_optimize_iff)
  then have "fst (dict_get (optimize_res q) K (0, ia)) = INDEX"
    by (simp add: dict_get_def)
  then have "optimize_res (q @ [(UNINDEX, K, ia)]) = AList.delete K (optimize_res q)"
    by (simp add: optimize_res_append optimize_step_cancel)
  then show ?thesis
    by (simp add: optimize_def entries_delete)
qed

text \<open>
  C3. When the reduction of a log \<open>q\<close> holds the object \<open>K\<close> with the operator \<open>INDEX\<close>
  and an \<open>UNINDEX\<close> for \<open>K\<close> is appended, the reduction of the longer log holds the
  entries of the reduction of \<open>q\<close> but the one for \<open>K\<close>. In particular a log that ends
  with an \<open>UNINDEX\<close> for \<open>K\<close> and has one more entry for \<open>K\<close>, an \<open>INDEX\<close>, whatever
  the entries for other objects before it and between the two, reduces to a log with no
  entry for \<open>K\<close>.
\<close>

theorem index_unindex_cancel:
  "((INDEX, K, a) \<in> set (optimize q) \<longrightarrow>
      set (optimize (q @ [(UNINDEX, K, ia)])) = {e \<in> set (optimize q). entry_obj e \<noteq> K}
      \<and> K \<notin> entry_obj ` set (optimize (q @ [(UNINDEX, K, ia)])))
   \<and> (K \<notin> entry_obj ` set xs \<and> K \<notin> entry_obj ` set ys \<longrightarrow>
      K \<notin> entry_obj ` set (optimize (xs @ [(INDEX, K, b)] @ ys @ [(UNINDEX, K, ib)])))"
proof (intro conjI impI)
  assume "(INDEX, K, a) \<in> set (optimize q)"
  then have eq: "optimize (q @ [(UNINDEX, K, ia)]) = filter (\<lambda>e. entry_obj e \<noteq> K) (optimize q)"
    by (rule optimize_unindex_after_index)
  show "set (optimize (q @ [(UNINDEX, K, ia)])) = {e \<in> set (optimize q). entry_obj e \<noteq> K}"
    unfolding eq by simp
  show "K \<notin> entry_obj ` set (optimize (q @ [(UNINDEX, K, ia)]))"
    unfolding eq by auto
next
  assume fresh: "K \<notin> entry_obj ` set xs \<and> K \<notin> entry_obj ` set ys"
  let ?zs = "xs @ [(INDEX, K, b)] @ ys"
  have "map_of (optimize_res xs) K = None"
    using fresh fold_optimize_step_other [of K xs "[]"] by (simp add: optimize_res_def)
  then obtain a' where "map_of (optimize_res (xs @ [(INDEX, K, b)])) K = Some (INDEX, a')"
    using optimize_step_index_fresh [of "optimize_res xs" K b] by (auto simp: optimize_res_append)
  then have "map_of (optimize_res ?zs) K = Some (INDEX, a')"
    using fresh fold_optimize_step_other [of K ys "optimize_res (xs @ [(INDEX, K, b)])"]
    by (simp add: optimize_res_append [of "xs @ [(INDEX, K, b)]" ys, simplified])
  then have "(INDEX, K, a') \<in> set (optimize ?zs)"
    by (simp add: in_optimize_iff)
  then have "optimize (?zs @ [(UNINDEX, K, ib)]) = filter (\<lambda>e. entry_obj e \<noteq> K) (optimize ?zs)"
    by (rule optimize_unindex_after_index)
  then show "K \<notin> entry_obj ` set (optimize (xs @ [(INDEX, K, b)] @ ys @ [(UNINDEX, K, ib)]))"
    by auto
qed

theorem index_unindex_cancel_witness:
  "(INDEX, ''/a'', None) \<in> set (optimize [(REINDEX, ''/b'', None), (INDEX, ''/a'', None)])
   \<and> set (optimize ([(REINDEX, ''/b'', None), (INDEX, ''/a'', None)] @ [(UNINDEX, ''/a'', None)]))
       = {e \<in> set (optimize [(REINDEX, ''/b'', None), (INDEX, ''/a'', None)]). entry_obj e \<noteq> ''/a''}
   \<and> ''/a'' \<notin> entry_obj ` set [(INDEX, ''/b'', None :: attrs)]
   \<and> ''/a'' \<notin> entry_obj ` set [(REINDEX, ''/c'', Some [''title''])]
   \<and> ''/a'' \<notin> entry_obj ` set (optimize ([(INDEX, ''/b'', None)] @ [(INDEX, ''/a'', None)]
         @ [(REINDEX, ''/c'', Some [''title''])] @ [(UNINDEX, ''/a'', None)]))"
proof -
  have h1: "(INDEX, ''/a'', None) \<in> set (optimize [(REINDEX, ''/b'', None), (INDEX, ''/a'', None)])"
    by code_simp
  have h2: "''/a'' \<notin> entry_obj ` set [(INDEX, ''/b'', None :: attrs)]
      \<and> ''/a'' \<notin> entry_obj ` set [(REINDEX, ''/c'', Some [''title''])]"
    by (simp add: entry_obj_def)
  from h1 h2
    index_unindex_cancel [of "''/a''" None "[(REINDEX, ''/b'', None), (INDEX, ''/a'', None)]" None
      "[(INDEX, ''/b'', None)]" "[(REINDEX, ''/c'', Some [''title''])]" None None]
  show ?thesis by blast
qed

subsection \<open>Attributes\<close>

lemma dict_update_keys: "fst ` set (dict_update d other) = fst ` set d \<union> fst ` set other"
  unfolding dict_update_def by (induction other arbitrary: d) (auto simp: dom_update)

lemma dict_update_distinct: "distinct (map fst d) \<Longrightarrow> distinct (map fst (dict_update d other))"
  unfolding dict_update_def by (induction other arbitrary: d) (auto simp: distinct_update)

lemma fold_fromkeys_keys: "fst ` set (fold (\<lambda>k d. AList.update k () d) ks d0) = fst ` set d0 \<union> set ks"
  by (induction ks arbitrary: d0) (auto simp: dom_update)

lemma dict_fromkeys_keys: "fst ` set (dict_fromkeys ks) = set ks"
  by (simp add: dict_fromkeys_def fold_fromkeys_keys)

lemma merge_attributes_Some:
  "\<exists>c. merge_attributes (Some a) (Some ia) = Some c \<and> set c = set a \<union> set ia \<and> distinct c"
  by (simp add: merge_attributes_def dict_keys_def dict_update_keys dict_fromkeys_keys
        dict_update_distinct)

lemma merge_attributes_None: "merge_attributes None x = None" "merge_attributes x None = None"
  by (simp_all add: merge_attributes_def split: option.splits)

lemma merge_attributes_set:
  "map_option set (merge_attributes x y) =
     (case x of None \<Rightarrow> None | Some a \<Rightarrow> (case y of None \<Rightarrow> None | Some b \<Rightarrow> Some (set a \<union> set b)))"
  using merge_attributes_Some [of "the x" "the y"]
  by (auto simp: merge_attributes_None split: option.splits)

lemma optimize_step_attributes:
  "\<not> (fst (dict_get res K (0, ia)) = INDEX \<and> iop = UNINDEX) \<Longrightarrow>
     map_option snd (map_of (optimize_step (iop, K, ia) res) K)
       = Some (merge_attributes (snd (dict_get res K (0, ia))) ia)"
  by (auto simp: optimize_step_def update_conv' split: prod.splits)

lemma optimize_two_reindex:
  "map (\<lambda>e. (entry_op e, entry_obj e, map_option set (entry_attributes e)))
     (optimize [(REINDEX, K, Some [''title'']), (REINDEX, K, Some [''body''])])
   = [(REINDEX, K, Some {''title'', ''body''})]"
  by (simp add: optimize_def optimize_res_def optimize_step_def dict_get_def REINDEX_def INDEX_def
        UNINDEX_def merge_attributes_def dict_keys_def dict_update_def dict_fromkeys_def
        entry_op_def entry_obj_def entry_attributes_def insert_commute)

lemma optimize_step_keeps_all:
  assumes "all_attributes K res"
    and "\<not> (entry_obj e = K \<and> fst (dict_get res K (0, entry_attributes e)) = INDEX \<and> entry_op e = UNINDEX)"
  shows "all_attributes K (optimize_step e res)"
proof (cases "entry_obj e = K")
  case False
  then show ?thesis
    using assms(1) by (simp add: all_attributes_def optimize_step_other)
next
  case True
  obtain iop obj iattr where e: "e = (iop, obj, iattr)" by (cases e)
  from assms(1) obtain op where op: "map_of res K = Some (op, None)"
    by (auto simp: all_attributes_def)
  from True e assms(2) op have "\<not> (op = INDEX \<and> iop = UNINDEX)"
    by (simp add: entry_obj_def entry_attributes_def entry_op_def dict_get_def)
  with True e op show ?thesis
    by (auto simp: all_attributes_def optimize_step_def dict_get_def entry_obj_def update_conv'
          merge_attributes_None)
qed

lemma fold_optimize_step_keeps_all:
  "all_attributes K res \<Longrightarrow> \<not> dropped K ys res \<Longrightarrow> all_attributes K (fold optimize_step ys res)"
  by (induction ys arbitrary: res) (auto simp: optimize_step_keeps_all)

lemma optimize_step_all_attributes:
  assumes "\<not> (fst (dict_get res K (0, None)) = INDEX \<and> op = UNINDEX)"
  shows "all_attributes K (optimize_step (op, K, None) res)"
  using assms
  by (auto simp: all_attributes_def optimize_step_def update_conv' merge_attributes_None
        split: prod.splits)

lemma all_attributes_dominate:
  assumes "\<not> dropped K ((op, K, None) # ys) (optimize_res xs)"
  shows "\<exists>op'. (op', K, None) \<in> set (optimize (xs @ (op, K, None) # ys))"
proof -
  from assms have 1: "\<not> (fst (dict_get (optimize_res xs) K (0, None)) = INDEX \<and> op = UNINDEX)"
    and 2: "\<not> dropped K ys (optimize_step (op, K, None) (optimize_res xs))"
    by (simp_all add: entry_obj_def entry_attributes_def entry_op_def)
  from 1 have "all_attributes K (optimize_step (op, K, None) (optimize_res xs))"
    by (rule optimize_step_all_attributes)
  with 2 have "all_attributes K (fold optimize_step ys (optimize_step (op, K, None) (optimize_res xs)))"
    by (simp add: fold_optimize_step_keeps_all)
  then have "all_attributes K (optimize_res (xs @ (op, K, None) # ys))"
    by (simp add: optimize_res_append)
  then show ?thesis
    by (simp add: all_attributes_def in_optimize_iff)
qed

text \<open>
  C4, as the claim states it, fails: an object indexed with all attributes, unindexed and
  then reindexed for its title alone is reduced to a reindex of the title alone. The
  deleting branch forgets what was accumulated for the object, the attributes with it.
\<close>

theorem all_attributes_lost_counterexample:
  "optimize [(INDEX, ''/a'', None), (UNINDEX, ''/a'', None), (REINDEX, ''/a'', Some [''title''])]
     = [(REINDEX, ''/a'', Some [''title''])]"
  by code_simp

text \<open>
  C4, amended. Two attribute values are combined to \<^verbatim>\<open>None\<close> (all attributes) when either
  is \<^verbatim>\<open>None\<close>, and otherwise to a tuple without repetition of the names of both; a step
  of the reducer that does not delete stores for the object the combination of the
  attributes accumulated so far (the incoming ones, when the object is new) with the
  incoming ones. A reindex of the title followed by a reindex of the body of the same
  object reduces to one reindex of both. An entry for \<open>K\<close> with all attributes makes the
  reduced entry for \<open>K\<close> one with all attributes, whatever comes before and after it,
  provided the reducer does not take its deleting branch for \<open>K\<close> at that entry or later.
\<close>

theorem attributes_combined:
  "map_option set (merge_attributes x y) =
     (case x of None \<Rightarrow> None | Some a \<Rightarrow> (case y of None \<Rightarrow> None | Some b \<Rightarrow> Some (set a \<union> set b)))
   \<and> (\<not> (fst (dict_get res K (0, ia)) = INDEX \<and> iop = UNINDEX) \<longrightarrow>
        map_option snd (map_of (optimize_step (iop, K, ia) res) K)
          = Some (merge_attributes (snd (dict_get res K (0, ia))) ia))
   \<and> map (\<lambda>e. (entry_op e, entry_obj e, map_option set (entry_attributes e)))
        (optimize [(REINDEX, K, Some [''title'']), (REINDEX, K, Some [''body''])])
      = [(REINDEX, K, Some {''title'', ''body''})]
   \<and> (\<not> dropped K ((op, K, None) # ys) (optimize_res xs) \<longrightarrow>
        (\<exists>op'. (op', K, None) \<in> set (optimize (xs @ (op, K, None) # ys))))"
  using merge_attributes_set [of x y] optimize_step_attributes [of res K ia iop]
    optimize_two_reindex [of K] all_attributes_dominate [of K op ys xs]
  by blast

theorem attributes_combined_witness:
  "\<not> (fst (dict_get [(''/a'', REINDEX, Some [''title''])] ''/a'' (0, Some [''body''])) = INDEX \<and> REINDEX = UNINDEX)
   \<and> map_option snd (map_of (optimize_step (REINDEX, ''/a'', Some [''body'']) [(''/a'', REINDEX, Some [''title''])]) ''/a'')
       = Some (merge_attributes (snd (dict_get [(''/a'', REINDEX, Some [''title''])] ''/a'' (0, Some [''body'']))) (Some [''body'']))
   \<and> \<not> dropped ''/a'' ((UNINDEX, ''/a'', None) # [(INDEX, ''/a'', Some [''body''])])
         (optimize_res [(REINDEX, ''/a'', Some [''title''])])
   \<and> (\<exists>op'. (op', ''/a'', None) \<in> set (optimize ([(REINDEX, ''/a'', Some [''title''])]
         @ (UNINDEX, ''/a'', None) # [(INDEX, ''/a'', Some [''body''])])))"
proof -
  have h1: "\<not> (fst (dict_get [(''/a'', REINDEX, Some [''title''])] ''/a'' (0, Some [''body''])) = INDEX \<and> REINDEX = UNINDEX)"
    by (simp add: REINDEX_def UNINDEX_def)
  have h2: "\<not> dropped ''/a'' ((UNINDEX, ''/a'', None) # [(INDEX, ''/a'', Some [''body''])])
         (optimize_res [(REINDEX, ''/a'', Some [''title''])])"
    by code_simp
  from h1 h2
    attributes_combined [of None None "[(''/a'', REINDEX, Some [''title''])]" "''/a''" "Some [''body'']"
      REINDEX UNINDEX "[(INDEX, ''/a'', Some [''body''])]" "[(REINDEX, ''/a'', Some [''title''])]"]
  show ?thesis by blast
qed

section \<open>Properties of the queues\<close>

subsection \<open>The reducer never leaves an operator the dispatch rejects\<close>

lemma set_update_subset: "set (AList.update k v al) \<subseteq> insert (k, v) (set al)"
  by (induction al) auto

lemma set_delete_subset: "set (AList.delete k al) \<subseteq> set al"
  by (auto simp: AList.delete_eq)

lemma optimize_step_valid:
  assumes v: "res_valid res"
  shows "res_valid (optimize_step e res)"
proof -
  obtain iop obj iattr where e: "e = (iop, obj, iattr)" by (cases e)
  obtain op attr where g: "dict_get res obj (0, iattr) = (op, attr)"
    by (cases "dict_get res obj (0, iattr)")
  have c: "min (max (op + iop) UNINDEX) INDEX \<in> {UNINDEX, REINDEX, INDEX}"
    by (auto simp: UNINDEX_def REINDEX_def INDEX_def min_def max_def)
  show ?thesis
  proof (cases "op = INDEX \<and> iop = UNINDEX")
    case True
    with e g have "optimize_step e res = AList.delete obj res" by (simp add: optimize_step_def)
    with v set_delete_subset [of obj res] show ?thesis by (auto simp: res_valid_def)
  next
    case False
    with e g have "optimize_step e res =
        AList.update obj (min (max (op + iop) UNINDEX) INDEX, merge_attributes attr iattr) res"
      by (auto simp: optimize_step_def)
    with v c set_update_subset [of obj _ res] show ?thesis
      by (fastforce simp: res_valid_def)
  qed
qed

lemma fold_optimize_step_valid: "res_valid res \<Longrightarrow> res_valid (fold optimize_step q res)"
  by (induction q arbitrary: res) (simp_all add: optimize_step_valid)

lemma optimize_valid: "list_all valid_op (optimize q)"
proof -
  have "res_valid (optimize_res q)"
    unfolding optimize_res_def by (rule fold_optimize_step_valid) (simp add: res_valid_def)
  then show ?thesis
    by (auto simp: optimize_def list_all_iff valid_op_def entry_op_def res_valid_def)
qed

lemma optimize_Nil: "optimize [] = []"
  by (simp add: optimize_def optimize_res_def)

subsection \<open>The dispatch loop\<close>

lemma dispatch_valid: "valid_op e \<Longrightarrow> \<exists>ev. dispatch name e = Inr ev"
  by (auto simp: valid_op_def dispatch_def entry_op_def split: prod.splits)

lemma dispatch_utilities_None:
  "dispatch_utilities us e tr = (None, tr') \<Longrightarrow> tr' = tr @ calls_of us e"
proof (induction us arbitrary: tr)
  case Nil
  then show ?case by (simp add: calls_of_def)
next
  case (Cons name us)
  from Cons.prems obtain ev where ev: "dispatch name e = Inr ev"
    and rest: "dispatch_utilities us e (tr @ [ev]) = (None, tr')"
    by (auto split: sum.splits)
  from Cons.IH [OF rest] ev show ?case by (simp add: calls_of_def)
qed

lemma dispatch_utilities_valid:
  "valid_op e \<Longrightarrow> dispatch_utilities us e tr = (None, tr @ calls_of us e)"
proof (induction us arbitrary: tr)
  case Nil
  then show ?case by (simp add: calls_of_def)
next
  case (Cons name us)
  from dispatch_valid [OF Cons.prems, of name] obtain ev where "dispatch name e = Inr ev" ..
  with Cons show ?case by (simp add: calls_of_def)
qed

lemma dispatch_queue_Inr:
  "dispatch_queue us q n tr = (Inr m, tr') \<Longrightarrow> m = n + length q \<and> tr' = tr @ dispatched us q"
proof (induction q arbitrary: n tr)
  case Nil
  then show ?case by (simp add: dispatched_def)
next
  case (Cons e q)
  from Cons.prems obtain tr1 where 1: "dispatch_utilities us e tr = (None, tr1)"
    and 2: "dispatch_queue us q (n + 1) tr1 = (Inr m, tr')"
    by (auto split: prod.splits option.splits)
  from 1 have "tr1 = tr @ calls_of us e" by (rule dispatch_utilities_None)
  with Cons.IH [OF 2] show ?case by (simp add: dispatched_def)
qed

lemma dispatch_queue_valid:
  "list_all valid_op q \<Longrightarrow> dispatch_queue us q n tr = (Inr (n + length q), tr @ dispatched us q)"
  by (induction q arbitrary: n tr) (simp_all add: dispatched_def dispatch_utilities_valid)

lemma calls_of_dispatch: "list_all is_dispatch (calls_of us e)"
  by (induction us) (auto simp: calls_of_def dispatch_def split: prod.splits sum.splits if_splits)

lemma dispatched_dispatch: "list_all is_dispatch (dispatched us q)"
  by (induction q) (simp_all add: dispatched_def calls_of_dispatch)

subsection \<open>What \<^verbatim>\<open>process\<close> returns, calls and leaves\<close>

lemma optimize_tm_result:
  "optimize_tm reg s =
     (Inr (), s\<lparr>queue := (case reducer reg of None \<Rightarrow> queue s | Some r \<Rightarrow> r (queue s))\<rparr>)"
  by (simp add: optimize_tm_def setState_tm_def getState_tm_def split: option.splits)

lemma clear_tm_optimize_tm:
  "clear_tm (snd (optimize_tm reg (s :: 'k index_queue))) = \<lparr>queue = [], tmhook = None\<rparr>"
  by (simp add: clear_tm_def optimize_tm_result)

lemma process_tm_valid:
  assumes "list_all valid_op (queue (snd (optimize_tm reg s)))"
  shows "process_tm reg s =
    (Inr (length (queue (snd (optimize_tm reg s)))),
     map Call_begin (utilities reg) @ dispatched (utilities reg) (queue (snd (optimize_tm reg s))),
     clear_tm (snd (optimize_tm reg s)))"
  using assms
  by (simp add: process_tm_def Let_def optimize_tm_result dispatch_queue_valid)

lemma process_tm_Inr:
  assumes "fst (process_tm reg s) = Inr m"
  shows "process_tm reg s =
    (Inr (length (queue (snd (optimize_tm reg s)))),
     map Call_begin (utilities reg) @ dispatched (utilities reg) (queue (snd (optimize_tm reg s))),
     clear_tm (snd (optimize_tm reg s)))"
  using assms
  by (auto simp: process_tm_def Let_def optimize_tm_result split: prod.splits sum.splits
        dest!: dispatch_queue_Inr)

lemma process_local_valid:
  assumes "list_all valid_op (fst (getLocal_queue ld))"
  shows "process_local reg ld =
    (Inr (length (fst (getLocal_queue ld))),
     map Call_begin (utilities reg) @ dispatched (utilities reg) (fst (getLocal_queue ld))
       @ map Call_commit (utilities reg),
     clear_local (snd (getLocal_queue ld)))"
proof -
  obtain q ld1 where g: "getLocal_queue ld = (q, ld1)" by (cases "getLocal_queue ld")
  with assms have "list_all valid_op q" by simp
  then have "dispatch_queue (utilities reg) q 0 (map Call_begin (utilities reg))
      = (Inr (length q), map Call_begin (utilities reg) @ dispatched (utilities reg) q)"
    using dispatch_queue_valid [of q "utilities reg" 0] by simp
  with g show ?thesis by (simp add: process_local_def Let_def)
qed

lemma process_local_Inr:
  assumes "fst (process_local reg ld) = Inr m"
  shows "process_local reg ld =
    (Inr (length (fst (getLocal_queue ld))),
     map Call_begin (utilities reg) @ dispatched (utilities reg) (fst (getLocal_queue ld))
       @ map Call_commit (utilities reg),
     clear_local (snd (getLocal_queue ld)))"
proof -
  obtain q ld1 where g: "getLocal_queue ld = (q, ld1)" by (cases "getLocal_queue ld")
  obtain r tr where d: "dispatch_queue (utilities reg) q 0 (map Call_begin (utilities reg)) = (r, tr)"
    by (cases "dispatch_queue (utilities reg) q 0 (map Call_begin (utilities reg))")
  with g assms have "r = Inr m" by (auto simp: process_local_def Let_def split: sum.splits)
  with d dispatch_queue_Inr [of "utilities reg" q 0 "map Call_begin (utilities reg)" m tr]
  have "r = Inr (length q)" and "tr = map Call_begin (utilities reg) @ dispatched (utilities reg) q"
    by simp_all
  with g d show ?thesis by (simp add: process_local_def Let_def)
qed

text \<open>
  C1, as the claim states it, fails for the thread-local queue: its \<^verbatim>\<open>process\<close> never
  calls \<^verbatim>\<open>optimize\<close>. With the repository's reducer registered and a queue holding an
  index and an unindex of one object, which the reducer would reduce to nothing, it
  dispatches both entries and returns 2.
\<close>

theorem process_local_count_counterexample:
  "process_local \<lparr>utilities = [''catalog''], reducer = Some optimize\<rparr>
     \<lparr>queue_attr = Some [(INDEX, ''/a'', None), (UNINDEX, ''/a'', None)], hook_attr = None\<rparr>
   = (Inr 2,
      [Call_begin ''catalog'', Call_index ''catalog'' ''/a'' None, Call_unindex ''catalog'' ''/a'',
       Call_commit ''catalog''],
      \<lparr>queue_attr = Some [], hook_attr = None\<rparr>)
   \<and> optimize [(INDEX, ''/a'', None), (UNINDEX, ''/a'', None)] = []"
  by code_simp

text \<open>
  C1, amended. The transaction-hooked queue's \<^verbatim>\<open>process\<close> replaces the log by what the
  registered reducer makes of it (by itself when none is registered) before it
  dispatches: whenever it returns, the calls it made after the \<^verbatim>\<open>begin\<close>s are those of
  the reduced log and the number it returns is the length of the reduced log; it does
  return when every operator of the reduced log is one of the three codes, which is so
  with the repository's reducer. The thread-local queue's \<^verbatim>\<open>process\<close> reduces nothing:
  whenever it returns, it has dispatched the log as it was and returns its length.
\<close>

theorem process_count:
  "queue (snd (optimize_tm reg s)) = (case reducer reg of None \<Rightarrow> queue s | Some r \<Rightarrow> r (queue s))
   \<and> (fst (process_tm reg s) = Inr m \<longrightarrow>
        m = length (queue (snd (optimize_tm reg s)))
        \<and> fst (snd (process_tm reg s))
            = map Call_begin (utilities reg) @ dispatched (utilities reg) (queue (snd (optimize_tm reg s))))
   \<and> (list_all valid_op (queue (snd (optimize_tm reg s))) \<longrightarrow>
        fst (process_tm reg s) = Inr (length (queue (snd (optimize_tm reg s)))))
   \<and> (reducer reg = Some optimize \<longrightarrow>
        fst (process_tm reg s) = Inr (length (optimize (queue s))))
   \<and> (fst (process_local reg' ld) = Inr m' \<longrightarrow>
        m' = length (fst (getLocal_queue ld))
        \<and> fst (snd (process_local reg' ld))
            = map Call_begin (utilities reg') @ dispatched (utilities reg') (fst (getLocal_queue ld))
              @ map Call_commit (utilities reg'))
   \<and> (list_all valid_op (fst (getLocal_queue ld)) \<longrightarrow>
        fst (process_local reg' ld) = Inr (length (fst (getLocal_queue ld))))"
proof (intro conjI impI)
  show "queue (snd (optimize_tm reg s)) = (case reducer reg of None \<Rightarrow> queue s | Some r \<Rightarrow> r (queue s))"
    by (simp add: optimize_tm_result)
next
  assume "fst (process_tm reg s) = Inr m"
  from process_tm_Inr [OF this] this
  show "m = length (queue (snd (optimize_tm reg s)))"
    and "fst (snd (process_tm reg s))
          = map Call_begin (utilities reg) @ dispatched (utilities reg) (queue (snd (optimize_tm reg s)))"
    by simp_all
next
  assume "list_all valid_op (queue (snd (optimize_tm reg s)))"
  from process_tm_valid [OF this]
  show "fst (process_tm reg s) = Inr (length (queue (snd (optimize_tm reg s))))" by simp
next
  assume r: "reducer reg = Some optimize"
  then have q: "queue (snd (optimize_tm reg s)) = optimize (queue s)"
    by (simp add: optimize_tm_result)
  have "list_all valid_op (queue (snd (optimize_tm reg s)))"
    unfolding q by (rule optimize_valid)
  from process_tm_valid [OF this] q
  show "fst (process_tm reg s) = Inr (length (optimize (queue s)))" by simp
next
  assume "fst (process_local reg' ld) = Inr m'"
  from process_local_Inr [OF this] this
  show "m' = length (fst (getLocal_queue ld))"
    and "fst (snd (process_local reg' ld))
            = map Call_begin (utilities reg') @ dispatched (utilities reg') (fst (getLocal_queue ld))
              @ map Call_commit (utilities reg')"
    by simp_all
next
  assume "list_all valid_op (fst (getLocal_queue ld))"
  from process_local_valid [OF this]
  show "fst (process_local reg' ld) = Inr (length (fst (getLocal_queue ld)))" by simp
qed

theorem process_count_witness:
  "fst (process_tm \<lparr>utilities = [''catalog''], reducer = Some optimize\<rparr>
         \<lparr>queue = [(INDEX, ''/a'', None), (UNINDEX, ''/a'', None), (REINDEX, ''/b'', Some [''title''])],
          tmhook = Some QueueTM_register\<rparr>) = Inr 1
   \<and> list_all valid_op (queue (snd (optimize_tm \<lparr>utilities = [''catalog''], reducer = Some optimize\<rparr>
         \<lparr>queue = [(INDEX, ''/a'', None), (UNINDEX, ''/a'', None), (REINDEX, ''/b'', Some [''title''])],
          tmhook = Some QueueTM_register\<rparr>)))
   \<and> 1 = length (queue (snd (optimize_tm \<lparr>utilities = [''catalog''], reducer = Some optimize\<rparr>
         \<lparr>queue = [(INDEX, ''/a'', None), (UNINDEX, ''/a'', None), (REINDEX, ''/b'', Some [''title''])],
          tmhook = Some QueueTM_register\<rparr>)))
   \<and> fst (process_local \<lparr>utilities = [''catalog''], reducer = None\<rparr>
         \<lparr>queue_attr = Some [(INDEX, ''/a'', None), (UNINDEX, ''/a'', None)], hook_attr = None\<rparr>) = Inr 2
   \<and> list_all valid_op (fst (getLocal_queue
         \<lparr>queue_attr = Some [(INDEX, ''/a'', None), (UNINDEX, ''/a'', None)], hook_attr = None\<rparr>))
   \<and> 2 = length (fst (getLocal_queue
         \<lparr>queue_attr = Some [(INDEX, ''/a'', None), (UNINDEX, ''/a'', None)], hook_attr = None\<rparr>))"
proof -
  let ?reg = "\<lparr>utilities = [''catalog''], reducer = Some optimize\<rparr>"
  let ?s = "\<lparr>queue = [(INDEX, ''/a'', None), (UNINDEX, ''/a'', None), (REINDEX, ''/b'', Some [''title''])],
          tmhook = Some QueueTM_register\<rparr>"
  let ?reg' = "\<lparr>utilities = [''catalog''], reducer = None :: (string entry list \<Rightarrow> string entry list) option\<rparr>"
  let ?ld = "\<lparr>queue_attr = Some [(INDEX, ''/a'', None), (UNINDEX, ''/a'', None)], hook_attr = None\<rparr>"
  have h1: "fst (process_tm ?reg ?s) = Inr 1" by code_simp
  have h2: "list_all valid_op (queue (snd (optimize_tm ?reg ?s)))" by code_simp
  have h3: "reducer ?reg = Some optimize" by simp
  have h4: "fst (process_local ?reg' ?ld) = Inr 2" by code_simp
  have h5: "list_all valid_op (fst (getLocal_queue ?ld))" by code_simp
  from h1 h2 h3 h4 h5 process_count [of ?reg ?s 1 ?reg' ?ld 2]
  show ?thesis by blast
qed

text \<open>
  C2, as the claim states it, fails for the transaction-hooked queue: its \<^verbatim>\<open>process\<close>
  calls no \<^verbatim>\<open>commit\<close>. With two processors and one entry it begins on both, indexes on
  both and returns.
\<close>

theorem process_tm_commit_counterexample:
  "process_tm \<lparr>utilities = [''catalog'', ''solr''], reducer = Some optimize\<rparr>
     \<lparr>queue = [(INDEX, ''/a'', None)], tmhook = Some QueueTM_register\<rparr>
   = (Inr 1,
      [Call_begin ''catalog'', Call_begin ''solr'',
       Call_index ''catalog'' ''/a'' None, Call_index ''solr'' ''/a'' None],
      \<lparr>queue = [], tmhook = None\<rparr>)"
  by code_simp

text \<open>
  C2, amended. A \<^verbatim>\<open>process\<close> that returns has called \<^verbatim>\<open>begin\<close> on every processor, in
  the order of registration, before the first call that applies an entry. The
  thread-local queue's \<^verbatim>\<open>process\<close> then calls \<^verbatim>\<open>commit\<close> on every processor, in the
  order of registration, after the last such call. The transaction-hooked queue's
  \<^verbatim>\<open>process\<close> ends with the last such call; \<^verbatim>\<open>commit\<close> on every processor, in the
  order of registration, is what its method \<^verbatim>\<open>commit\<close> does.
\<close>

theorem process_begin_commit:
  "(fst (process_local reg ld) = Inr m \<longrightarrow>
      fst (snd (process_local reg ld))
        = map Call_begin (utilities reg) @ dispatched (utilities reg) (fst (getLocal_queue ld))
          @ map Call_commit (utilities reg))
   \<and> (fst (process_tm reg s) = Inr m' \<longrightarrow>
        fst (snd (process_tm reg s))
          = map Call_begin (utilities reg) @ dispatched (utilities reg) (queue (snd (optimize_tm reg s)))
        \<and> fst (commit_tm reg (snd (snd (process_tm reg s)))) = map Call_commit (utilities reg))
   \<and> list_all is_dispatch (dispatched (utilities reg) q)"
proof (intro conjI impI)
  assume "fst (process_local reg ld) = Inr m"
  from process_local_Inr [OF this]
  show "fst (snd (process_local reg ld))
        = map Call_begin (utilities reg) @ dispatched (utilities reg) (fst (getLocal_queue ld))
          @ map Call_commit (utilities reg)"
    by simp
next
  assume "fst (process_tm reg s) = Inr m'"
  from process_tm_Inr [OF this]
  show "fst (snd (process_tm reg s))
          = map Call_begin (utilities reg) @ dispatched (utilities reg) (queue (snd (optimize_tm reg s)))"
    by simp
  show "fst (commit_tm reg (snd (snd (process_tm reg s)))) = map Call_commit (utilities reg)"
    by (simp add: commit_tm_def)
next
  show "list_all is_dispatch (dispatched (utilities reg) q)"
    by (rule dispatched_dispatch)
qed

theorem process_begin_commit_witness:
  "fst (process_local \<lparr>utilities = [''catalog'', ''solr''], reducer = Some optimize\<rparr>
         \<lparr>queue_attr = Some [(REINDEX, ''/a'', Some [''title''])], hook_attr = None\<rparr>) = Inr 1
   \<and> fst (snd (process_local \<lparr>utilities = [''catalog'', ''solr''], reducer = Some optimize\<rparr>
         \<lparr>queue_attr = Some [(REINDEX, ''/a'', Some [''title''])], hook_attr = None\<rparr>))
       = [Call_begin ''catalog'', Call_begin ''solr'',
          Call_reindex ''catalog'' ''/a'' (Some [''title'']), Call_reindex ''solr'' ''/a'' (Some [''title'']),
          Call_commit ''catalog'', Call_commit ''solr'']
   \<and> fst (process_tm \<lparr>utilities = [''catalog'', ''solr''], reducer = Some optimize\<rparr>
         \<lparr>queue = [(REINDEX, ''/a'', Some [''title''])], tmhook = None\<rparr>) = Inr 1
   \<and> fst (snd (process_tm \<lparr>utilities = [''catalog'', ''solr''], reducer = Some optimize\<rparr>
         \<lparr>queue = [(REINDEX, ''/a'', Some [''title''])], tmhook = None\<rparr>))
       = [Call_begin ''catalog'', Call_begin ''solr'',
          Call_reindex ''catalog'' ''/a'' (Some [''title'']), Call_reindex ''solr'' ''/a'' (Some [''title''])]
   \<and> fst (commit_tm \<lparr>utilities = [''catalog'', ''solr''], reducer = Some optimize\<rparr>
         (snd (snd (process_tm \<lparr>utilities = [''catalog'', ''solr''], reducer = Some optimize\<rparr>
            \<lparr>queue = [(REINDEX, ''/a'', Some [''title''])], tmhook = None\<rparr>))))
       = [Call_commit ''catalog'', Call_commit ''solr'']"
proof -
  let ?reg = "\<lparr>utilities = [''catalog'', ''solr''], reducer = Some optimize\<rparr> :: string registry"
  let ?ld = "\<lparr>queue_attr = Some [(REINDEX, ''/a'', Some [''title''])], hook_attr = None\<rparr>"
  let ?s = "\<lparr>queue = [(REINDEX, ''/a'', Some [''title''])], tmhook = None\<rparr>"
  have h1: "fst (process_local ?reg ?ld) = Inr 1" by code_simp
  have h2: "fst (process_tm ?reg ?s) = Inr 1" by code_simp
  have d1: "dispatched (utilities ?reg) (fst (getLocal_queue ?ld))
      = [Call_reindex ''catalog'' ''/a'' (Some [''title'']), Call_reindex ''solr'' ''/a'' (Some [''title''])]"
    by code_simp
  have d2: "dispatched (utilities ?reg) (queue (snd (optimize_tm ?reg ?s)))
      = [Call_reindex ''catalog'' ''/a'' (Some [''title'']), Call_reindex ''solr'' ''/a'' (Some [''title''])]"
    by code_simp
  have u: "utilities ?reg = [''catalog'', ''solr'']" by simp
  from h1 h2 process_begin_commit [of ?reg ?ld 1 ?s 1 "[]"]
  show ?thesis unfolding d1 d2 unfolding u list.map append.simps by blast
qed

subsection \<open>Appending, snapshot and restore\<close>

text \<open>
  C6. In both queues \<^verbatim>\<open>index\<close>, \<^verbatim>\<open>reindex\<close> and \<^verbatim>\<open>unindex\<close> called with \<^verbatim>\<open>None\<close> for
  the object fail with the assertion error "invalid object" before anything else
  happens: the hook is not called and the state of the queue is the one before the call.
\<close>

theorem absent_object_rejected:
  "index_tm None attributes s = (Inl Invalid_object, [], s)
   \<and> reindex_tm None attributes s = (Inl Invalid_object, [], s)
   \<and> unindex_tm wrap None s = (Inl Invalid_object, [], s)
   \<and> index_local None attributes ld = (Inl Invalid_object, [], ld)
   \<and> reindex_local None attributes ld = (Inl Invalid_object, [], ld)
   \<and> unindex_local None ld = (Inl Invalid_object, [], ld)"
  by (simp add: index_tm_def reindex_tm_def unindex_tm_def index_local_def reindex_local_def
        unindex_local_def)

text \<open>
  C7, as the claim states it, fails: \<^verbatim>\<open>setState\<close> asserts that its argument is a list
  and looks no further. A list whose one entry carries the operator 7 is accepted and
  becomes the log.
\<close>

theorem setState_malformed_counterexample:
  "setState_tm (Py_list [(7, ''/a'', None)]) \<lparr>queue = [], tmhook = None\<rparr>
     = (Inr (), \<lparr>queue = [(7, ''/a'', None)], tmhook = None\<rparr>)
   \<and> \<not> valid_op (7, ''/a'', None)"
  by (simp add: setState_tm_def valid_op_def entry_op_def INDEX_def REINDEX_def UNINDEX_def)

text \<open>
  C7, amended. In both queues \<^verbatim>\<open>setState\<close> fails with the assertion error "state must
  be a list" on every value that is not a list, and leaves the queue as it was; every
  list is accepted, whatever its entries, and becomes the log.
\<close>

theorem setState_list_only:
  "((\<forall>es. state \<noteq> Py_list es) \<longrightarrow>
      setState_tm state s = (Inl State_not_list, s)
      \<and> setState_local state ld = (Inl State_not_list, ld))
   \<and> setState_tm (Py_list es) s = (Inr (), s\<lparr>queue := es\<rparr>)
   \<and> setState_local (Py_list es) ld = (Inr (), ld\<lparr>queue_attr := Some es\<rparr>)"
  by (cases state) (simp_all add: setState_tm_def setState_local_def)

theorem setState_list_only_witness:
  "(\<forall>es. Py_tuple [(INDEX, ''/a'', None)] \<noteq> Py_list es)
   \<and> setState_tm (Py_tuple [(INDEX, ''/a'', None)]) \<lparr>queue = [(REINDEX, ''/b'', None)], tmhook = None\<rparr>
       = (Inl State_not_list, \<lparr>queue = [(REINDEX, ''/b'', None)], tmhook = None\<rparr>)
   \<and> setState_local (Py_tuple [(INDEX, ''/a'', None)]) \<lparr>queue_attr = None, hook_attr = None\<rparr>
       = (Inl State_not_list, \<lparr>queue_attr = None, hook_attr = None\<rparr>)"
proof -
  have h: "\<forall>es. Py_tuple [(INDEX, ''/a'', None :: attrs)] \<noteq> Py_list es" by simp
  from h
    setState_list_only [of "Py_tuple [(INDEX, ''/a'', None)]"
      "\<lparr>queue = [(REINDEX, ''/b'', None)], tmhook = None\<rparr>"
      "\<lparr>queue_attr = None, hook_attr = None\<rparr>" "[]"]
  show ?thesis by blast
qed

text \<open>
  C8. Handing \<^verbatim>\<open>setState\<close> what \<^verbatim>\<open>getState\<close> has just returned succeeds and changes
  nothing. In the transaction-hooked queue the whole state is the same; in the
  thread-local queue \<^verbatim>\<open>getState\<close> itself may store the empty list where the attribute
  was absent, the state after \<^verbatim>\<open>setState\<close> is the one \<^verbatim>\<open>getState\<close> left, and the
  log read from it is the log read before.
\<close>

theorem setState_getState:
  "setState_tm (Py_list (getState_tm s)) s = (Inr (), s)
   \<and> setState_local (Py_list (fst (getState_local ld))) (snd (getState_local ld))
       = (Inr (), snd (getState_local ld))
   \<and> fst (getLocal_queue (snd (getState_local ld))) = fst (getLocal_queue ld)"
  by (simp add: setState_tm_def getState_tm_def setState_local_def getState_local_def
        getLocal_queue_def split: option.splits)

subsection \<open>Abort, and the empty queue\<close>









text \<open>
  C10. On an empty log the transaction-hooked queue's \<^verbatim>\<open>process\<close> calls \<^verbatim>\<open>begin\<close> on
  every processor and nothing else, leaves the log empty and the hook released, and
  returns 0, provided the registered reducer, if there is one, makes the empty log of
  the empty log, as the repository's reducer does. The thread-local queue's
  \<^verbatim>\<open>process\<close> calls \<^verbatim>\<open>begin\<close> on every processor, then \<^verbatim>\<open>commit\<close> on every processor,
  leaves the log empty and returns 0.
\<close>

theorem process_empty:
  "(queue s = [] \<and> (\<forall>r. reducer reg = Some r \<longrightarrow> r [] = []) \<longrightarrow>
      process_tm reg s = (Inr 0, map Call_begin (utilities reg), \<lparr>queue = [], tmhook = None\<rparr>))
   \<and> (fst (getLocal_queue ld) = [] \<longrightarrow>
        process_local reg ld
          = (Inr 0, map Call_begin (utilities reg) @ map Call_commit (utilities reg),
             ld\<lparr>queue_attr := Some []\<rparr>))
   \<and> optimize ([] :: 'k entry list) = []"
proof (intro conjI impI)
  assume a: "queue s = [] \<and> (\<forall>r. reducer reg = Some r \<longrightarrow> r [] = [])"
  then have "queue (snd (optimize_tm reg s)) = []"
    by (auto simp: optimize_tm_result split: option.splits)
  then show "process_tm reg s = (Inr 0, map Call_begin (utilities reg), \<lparr>queue = [], tmhook = None\<rparr>)"
    using process_tm_valid [of reg s] by (simp add: dispatched_def clear_tm_optimize_tm)
next
  assume a: "fst (getLocal_queue ld) = []"
  then have "clear_local (snd (getLocal_queue ld)) = ld\<lparr>queue_attr := Some []\<rparr>"
    by (auto simp: clear_local_def getLocal_queue_def split: option.splits)
  with a show "process_local reg ld
          = (Inr 0, map Call_begin (utilities reg) @ map Call_commit (utilities reg),
             ld\<lparr>queue_attr := Some []\<rparr>)"
    using process_local_valid [of ld reg] by (simp add: dispatched_def)
next
  show "optimize ([] :: 'k entry list) = []" by (rule optimize_Nil)
qed

theorem process_empty_witness:
  "queue \<lparr>queue = ([] :: string entry list), tmhook = Some QueueTM_register\<rparr> = []
   \<and> reducer (\<lparr>utilities = [''catalog'', ''solr''], reducer = Some optimize\<rparr> :: string registry)
       = Some optimize
   \<and> optimize ([] :: string entry list) = []
   \<and> process_tm \<lparr>utilities = [''catalog'', ''solr''], reducer = Some optimize\<rparr>
        \<lparr>queue = ([] :: string entry list), tmhook = Some QueueTM_register\<rparr>
       = (Inr 0, [Call_begin ''catalog'', Call_begin ''solr''], \<lparr>queue = [], tmhook = None\<rparr>)
   \<and> fst (getLocal_queue \<lparr>queue_attr = (None :: string entry list option), hook_attr = None\<rparr>) = []
   \<and> process_local \<lparr>utilities = [''catalog'', ''solr''], reducer = Some optimize\<rparr>
        \<lparr>queue_attr = (None :: string entry list option), hook_attr = None\<rparr>
       = (Inr 0,
          [Call_begin ''catalog'', Call_begin ''solr'', Call_commit ''catalog'', Call_commit ''solr''],
          \<lparr>queue_attr = Some [], hook_attr = None\<rparr>)"
proof -
  let ?reg = "\<lparr>utilities = [''catalog'', ''solr''], reducer = Some optimize\<rparr> :: string registry"
  let ?s = "\<lparr>queue = ([] :: string entry list), tmhook = Some QueueTM_register\<rparr>"
  let ?ld = "\<lparr>queue_attr = (None :: string entry list option), hook_attr = None\<rparr>"
  have h1: "queue ?s = []" by simp
  have h2: "\<forall>r. reducer ?reg = Some r \<longrightarrow> r ([] :: string entry list) = []"
    by (simp add: optimize_def optimize_res_def)
  have h3: "fst (getLocal_queue ?ld) = []" by (simp add: getLocal_queue_def)
  have h4: "reducer ?reg = Some optimize" by simp
  note t = process_empty [of ?s ?reg ?ld]
  from t h1 h2 have a: "process_tm ?reg ?s
      = (Inr 0, map Call_begin (utilities ?reg), \<lparr>queue = [], tmhook = None\<rparr>)"
    by (elim conjE) (rule mp, assumption, rule conjI)
  from t h3 have b: "process_local ?reg ?ld
      = (Inr 0, map Call_begin (utilities ?reg) @ map Call_commit (utilities ?reg),
         ?ld\<lparr>queue_attr := Some []\<rparr>)"
    by (elim conjE) (rule mp)
  from t have c: "optimize ([] :: string entry list) = []"
    by (elim conjE)
  from a have a': "process_tm ?reg ?s
      = (Inr 0, [Call_begin ''catalog'', Call_begin ''solr''], \<lparr>queue = [], tmhook = None\<rparr>)"
    by simp
  from b have b': "process_local ?reg ?ld
      = (Inr 0,
         [Call_begin ''catalog'', Call_begin ''solr'', Call_commit ''catalog'', Call_commit ''solr''],
         \<lparr>queue_attr = Some [], hook_attr = None\<rparr>)"
    by simp
  from h1 h4 c a' h3 b' show ?thesis by (intro conjI)
qed

end
